theory Spec2Isabelle
  imports Complex_Main
begin

section \<open>Python values\<close>

text \<open>
  A Python \<open>str\<close> is a sequence of Unicode code points; the messages of \<open>bot.py\<close> hold
  code points far above 255 (the rocket of the startup notice is U+1F680), and slices such
  as \<open>msg[:4000]\<close> count code points. A string is therefore a list of code points, and
  \<open>py\<close> turns an ASCII literal into one. Times are the readings of \<open>time.time()\<close>, taken
  as real numbers; \<open>backoff\<close> is a Python \<open>int\<close>.
\<close>

type_synonym pystr = "nat list"

definition py :: "string \<Rightarrow> pystr" where
  "py s = map of_char s"

section \<open>Settings\<close>

definition CHECK_INTERVAL :: int where
  "CHECK_INTERVAL = 120"

definition SUB_DELAY :: int where
  "SUB_DELAY = 2"

definition HEARTBEAT_INTERVAL :: int where
  "HEARTBEAT_INTERVAL = 1800"

definition MAX_SEEN :: nat where
  "MAX_SEEN = 3000"

definition SEND_INTERVAL :: real where
  "SEND_INTERVAL = 12 / 10"

definition BACKOFF_START :: int where
  "BACKOFF_START = 5"

definition BACKOFF_MAX :: int where
  "BACKOFF_MAX = 120"

section \<open>The global state\<close>

text \<open>
  The module's globals \<open>seen\<close> (an \<open>OrderedDict\<close>: an association list in insertion
  order, oldest first), \<open>queue\<close> (a \<open>deque\<close>, head first), \<open>last_heartbeat\<close>,
  \<open>last_send\<close> and \<open>backoff\<close>.
\<close>

record bot_state =
  seen :: "(pystr \<times> real) list"
  queue :: "pystr list"
  last_heartbeat :: real
  last_send :: real
  backoff :: int

definition initial_globals :: bot_state where
  "initial_globals =
     \<lparr>seen = [], queue = [], last_heartbeat = 0, last_send = 0, backoff = 0\<rparr>"

definition enqueue :: "pystr \<Rightarrow> bot_state \<Rightarrow> bot_state" where
  "enqueue msg st = st\<lparr>queue := queue st @ [msg]\<rparr>"

section \<open>What the program takes from Python's library\<close>

text \<open>
  \<open>bot.py\<close> calls into \<open>re\<close>, \<open>html\<close> and \<open>hashlib\<close>. Their Unicode tables and
  algorithms are not part of the repository, so they are parameters of the model:
  \<^item> \<open>isspace\<close>: the whitespace of \<open>str.strip()\<close>, which is also the class \<open>\s\<close>;
  \<^item> \<open>isword\<close>: the class \<open>\w\<close>, on which \<open>\b\<close> rests;
  \<^item> \<open>ci_eq p c\<close>: under \<open>re.IGNORECASE\<close>, the character \<open>c\<close> of the text matches the
    character \<open>p\<close> of the pattern;
  \<^item> \<open>unescape\<close>: \<open>html.unescape\<close>;
  \<^item> \<open>sha256_hexdigest s\<close>: \<open>hashlib.sha256(s.encode()).hexdigest()\<close>.
  Every theorem below holds for all values of these parameters, apart from the
  hypotheses it states.
\<close>

record pylib =
  isspace :: "nat \<Rightarrow> bool"
  isword :: "nat \<Rightarrow> bool"
  ci_eq :: "nat \<Rightarrow> nat \<Rightarrow> bool"
  unescape :: "pystr \<Rightarrow> pystr"
  sha256_hexdigest :: "pystr \<Rightarrow> pystr"

section \<open>Regular expressions\<close>

text \<open>
  The three patterns of \<open>bot.py\<close> are built from literals, \<open>\b\<close>, a character class
  under \<open>+\<close>, concatenation, alternation and one capturing group. \<open>rmatch\<close> is the
  backtracking matcher of \<open>re\<close> on them, in continuation style: \<open>prev\<close> is the character
  before the cursor, \<open>rest\<close> the text from the cursor on, \<open>g\<close> the text of group 1, and
  the continuation \<open>k\<close> is the rest of the pattern. Alternatives are tried in order, \<open>+\<close>
  is greedy and gives characters back one at a time.
\<close>

datatype re =
    Lit "nat \<Rightarrow> nat \<Rightarrow> bool" pystr
  | Bound "nat \<Rightarrow> bool"
  | Plus "nat \<Rightarrow> bool"
  | Cat re re
  | Alt re re
  | Group re

fun first_some :: "('a \<Rightarrow> 'b option) \<Rightarrow> 'a list \<Rightarrow> 'b option" where
  "first_some f [] = None"
| "first_some f (x # xs) = (case f x of Some y \<Rightarrow> Some y | None \<Rightarrow> first_some f xs)"

text \<open>\<open>\b\<close>: exactly one of the characters around the cursor is a word character.\<close>

definition at_boundary :: "(nat \<Rightarrow> bool) \<Rightarrow> nat option \<Rightarrow> pystr \<Rightarrow> bool" where
  "at_boundary w prev rest =
     ((case prev of None \<Rightarrow> False | Some c \<Rightarrow> w c)
        \<noteq> (case rest of [] \<Rightarrow> False | c # _ \<Rightarrow> w c))"

definition advance :: "nat option \<Rightarrow> pystr \<Rightarrow> nat option" where
  "advance prev consumed = (if consumed = [] then prev else Some (last consumed))"

fun rmatch :: "re \<Rightarrow> nat option \<Rightarrow> pystr \<Rightarrow> pystr option \<Rightarrow>
    (nat option \<Rightarrow> pystr \<Rightarrow> pystr option \<Rightarrow> 'a option) \<Rightarrow> 'a option" where
  "rmatch (Lit eq s) prev rest g k =
     (if length s \<le> length rest \<and> list_all2 eq s (take (length s) rest)
      then k (advance prev (take (length s) rest)) (drop (length s) rest) g
      else None)"
| "rmatch (Bound w) prev rest g k =
     (if at_boundary w prev rest then k prev rest g else None)"
| "rmatch (Plus cls) prev rest g k =
     first_some (\<lambda>n. k (advance prev (take n rest)) (drop n rest) g)
       (rev [1 ..< Suc (length (takeWhile cls rest))])"
| "rmatch (Cat a b) prev rest g k =
     rmatch a prev rest g (\<lambda>prev' rest' g'. rmatch b prev' rest' g' k)"
| "rmatch (Alt a b) prev rest g k =
     (case rmatch a prev rest g k of Some m \<Rightarrow> Some m | None \<Rightarrow> rmatch b prev rest g k)"
| "rmatch (Group a) prev rest g k =
     rmatch a prev rest g
       (\<lambda>prev' rest' g'. k prev' rest' (Some (take (length rest - length rest') rest)))"

text \<open>A match at the cursor: the cursor after it, and group 1.\<close>

definition match_here ::
    "re \<Rightarrow> nat option \<Rightarrow> pystr \<Rightarrow> (nat option \<times> pystr \<times> pystr option) option" where
  "match_here r prev rest = rmatch r prev rest None (\<lambda>prev' rest' g. Some (prev', rest', g))"

text \<open>The match object: \<open>start()\<close>, \<open>end()\<close> and \<open>group(1)\<close>.\<close>

record match =
  m_start :: nat
  m_end :: nat
  m_group1 :: "pystr option"

text \<open>\<open>pattern.search(text)\<close>: the first start position, from the left, with a match.\<close>

fun search_from :: "re \<Rightarrow> nat \<Rightarrow> nat option \<Rightarrow> pystr \<Rightarrow> match option" where
  "search_from r i prev rest =
     (case match_here r prev rest of
        Some (prev', rest', g) \<Rightarrow>
          Some \<lparr>m_start = i, m_end = i + (length rest - length rest'), m_group1 = g\<rparr>
      | None \<Rightarrow>
          (case rest of [] \<Rightarrow> None | c # cs \<Rightarrow> search_from r (Suc i) (Some c) cs))"

declare search_from.simps [simp del]

definition re_search :: "re \<Rightarrow> pystr \<Rightarrow> match option" where
  "re_search r text = search_from r 0 None text"

text \<open>
  \<open>re.sub(pattern, repl, text)\<close>: the matches from left to right, not overlapping, each
  replaced by \<open>repl\<close>; after an empty match the next character is copied.
\<close>

function sub_from :: "re \<Rightarrow> pystr \<Rightarrow> nat option \<Rightarrow> pystr \<Rightarrow> pystr" where
  "sub_from r repl prev rest =
     (case match_here r prev rest of
        Some (prev', rest', g) \<Rightarrow>
          if length rest' < length rest then repl @ sub_from r repl prev' rest'
          else repl @ (case rest of [] \<Rightarrow> [] | c # cs \<Rightarrow> c # sub_from r repl (Some c) cs)
      | None \<Rightarrow>
          (case rest of [] \<Rightarrow> [] | c # cs \<Rightarrow> c # sub_from r repl (Some c) cs))"
  by pat_completeness auto
termination
  by (relation "measure (\<lambda>(r, repl, prev, rest). length rest)") auto

declare sub_from.simps [simp del]

definition re_sub :: "re \<Rightarrow> pystr \<Rightarrow> pystr \<Rightarrow> pystr" where
  "re_sub r repl text = sub_from r repl None text"

section \<open>Keywords and the matcher\<close>

definition KEYWORDS :: "pystr list" where
  "KEYWORDS = map py
     [''problem'', ''issue'', ''error'', ''bug'', ''glitch'', ''crash'', ''not working'',
      ''failed'', ''lost'', ''scammed'', ''hacked'', ''stolen'', ''fraud'',
      ''phishing'', ''locked'', ''banned'', ''kyc'', ''login'',
      ''withdrawal'', ''deposit'', ''balance'', ''urgent'', ''wallet'',
      ''seed phrase'', ''private key'', ''network'', ''outage'', ''downtime'',
      ''exploit'', ''attack'', ''lawsuit'', ''regulation'']"

text \<open>\<open>"|".join(...)\<close>: the alternatives in the order of the list.\<close>

fun alternation :: "re list \<Rightarrow> re" where
  "alternation [] = Lit (=) []"
| "alternation [r] = r"
| "alternation (r # rs) = Alt r (alternation rs)"

text \<open>
  Lines 59 to 62. \<open>re.escape\<close> leaves the letters of a keyword and escapes its spaces,
  which then stand for themselves: each keyword is a literal, compared under
  \<open>re.IGNORECASE\<close>.
\<close>

definition keyword_regex :: "pylib \<Rightarrow> re" where
  "keyword_regex L =
     Cat (Bound (isword L))
       (Cat (Group (alternation (map (Lit (ci_eq L)) KEYWORDS))) (Bound (isword L)))"

section \<open>The matcher as the specification words it\<close>

text \<open>
  The keyword \<open>kw\<close> occurs as a whole word at position \<open>i\<close> of the text: its
  characters are there, compared without regard to case, the character before the
  occurrence is not a word character (or there is none), and neither is the one after.
\<close>

definition whole_word_at :: "pylib \<Rightarrow> pystr \<Rightarrow> pystr \<Rightarrow> nat \<Rightarrow> bool" where
  "whole_word_at L kw text i =
     (i + length kw \<le> length text
      \<and> list_all2 (ci_eq L) kw (take (length kw) (drop i text))
      \<and> \<not> (0 < i \<and> isword L (text ! (i - 1)))
      \<and> \<not> (i + length kw < length text \<and> isword L (text ! (i + length kw))))"

text \<open>
  The specification's \<open>match\<close>: the earliest position at which some keyword occurs as a
  whole word, with the first keyword of the list that does so there; no match when
  there is no such position.
\<close>

definition spec_match :: "pylib \<Rightarrow> pystr \<Rightarrow> (nat \<times> pystr) option" where
  "spec_match L text =
     (case find (\<lambda>i. \<exists>kw \<in> set KEYWORDS. whole_word_at L kw text i) [0 ..< Suc (length text)] of
        None \<Rightarrow> None
      | Some i \<Rightarrow> map_option (\<lambda>kw. (i, kw)) (find (\<lambda>kw. whole_word_at L kw text i) KEYWORDS))"

text \<open>
  What the comparison needs of the library's tables: a character that matches the first
  or the last letter of a keyword without regard to case is a word character.
\<close>

definition keyword_edges_word :: "pylib \<Rightarrow> bool" where
  "keyword_edges_word L =
     (\<forall>kw \<in> set KEYWORDS. \<forall>c.
        (ci_eq L (hd kw) c \<longrightarrow> isword L c) \<and> (ci_eq L (last kw) c \<longrightarrow> isword L c))"

text \<open>What the pattern of lines 59 to 62 asks of the keyword \<open>kw\<close> at the cursor.\<close>

definition kw_here :: "pylib \<Rightarrow> nat option \<Rightarrow> pystr \<Rightarrow> pystr \<Rightarrow> bool" where
  "kw_here L prev rest kw =
     (at_boundary (isword L) prev rest
      \<and> length kw \<le> length rest
      \<and> list_all2 (ci_eq L) kw (take (length kw) rest)
      \<and> at_boundary (isword L) (advance prev (take (length kw) rest)) (drop (length kw) rest))"

section \<open>The sanitizer: \<open>safe\<close>\<close>

text \<open>The patterns \<^verbatim>\<open><[^>]+>\<close> (62 is the closing angle bracket) and \<^verbatim>\<open>\s+\<close>.\<close>

definition tag_regex :: re where
  "tag_regex = Cat (Lit (=) (py ''<'')) (Cat (Plus (\<lambda>c. c \<noteq> 62)) (Lit (=) (py ''>'')))"

definition space_regex :: "pylib \<Rightarrow> re" where
  "space_regex L = Plus (isspace L)"

text \<open>\<open>s.replace(old, new)\<close> for a pattern \<open>old\<close> of one character.\<close>

definition str_replace :: "nat \<Rightarrow> pystr \<Rightarrow> pystr \<Rightarrow> pystr" where
  "str_replace old new s = concat (map (\<lambda>c. if c = old then new else [c]) s)"

text \<open>
  \<open>html.escape(s)\<close> with its default \<open>quote=True\<close>: five replacements, the ampersand
  first (38 \<open>&\<close>, 60 \<open><\<close>, 62 \<open>>\<close>, 34 the double quote, 39 the single quote).
\<close>

definition html_escape :: "pystr \<Rightarrow> pystr" where
  "html_escape s =
     str_replace 39 (py ''&#x27;'')
       (str_replace 34 (py ''&quot;'')
         (str_replace 62 (py ''&gt;'')
           (str_replace 60 (py ''&lt;'')
             (str_replace 38 (py ''&amp;'') s))))"

definition strip :: "pylib \<Rightarrow> pystr \<Rightarrow> pystr" where
  "strip L s = rev (dropWhile (isspace L) (rev (dropWhile (isspace L) s)))"

definition safe :: "pylib \<Rightarrow> pystr \<Rightarrow> pystr" where
  "safe L text =
     (if text = [] then []
      else html_escape
             (strip L
               (re_sub (space_regex L) (py '' '')
                 (re_sub tag_regex [] (unescape L text)))))"

section \<open>Notions for the proofs about the sanitizer\<close>

text \<open>
  After an opening angle bracket, the rest \<open>r\<close> of the text completes a tag: at least
  one character other than 62 (the closing bracket) comes first, and a 62 follows.
\<close>

definition tagcond :: "pystr \<Rightarrow> bool" where
  "tagcond r = (1 \<le> length (takeWhile (\<lambda>c. c \<noteq> 62) r)
               \<and> length (takeWhile (\<lambda>c. c \<noteq> 62) r) < length r)"

text \<open>
  What the two substitutions of \<open>safe\<close> compute, as plain recursions (lemmas
  \<open>sub_from_tag\<close> and \<open>sub_from_space\<close> below): the tags removed, and every run of
  whitespace replaced by one space (32).
\<close>

function strip_tags :: "pystr \<Rightarrow> pystr" where
  "strip_tags [] = []"
| "strip_tags (c # r) =
     (if c = 60 \<and> tagcond r
      then strip_tags (drop (Suc (length (takeWhile (\<lambda>c. c \<noteq> 62) r))) r)
      else c # strip_tags r)"
  by pat_completeness auto
termination
  by (relation "measure length") auto

function collapse :: "pylib \<Rightarrow> pystr \<Rightarrow> pystr" where
  "collapse L [] = []"
| "collapse L (c # r) =
     (if isspace L c then 32 # collapse L (dropWhile (isspace L) r) else c # collapse L r)"
  by pat_completeness auto
termination
  by (relation "measure (\<lambda>(L, s). length s)") (auto simp: length_dropWhile_le less_Suc_eq_le)

text \<open>
  The texts on which the substitutions change nothing: no opening bracket completes a
  tag, and every whitespace character is a space (32) that no whitespace follows.
\<close>

fun no_tag :: "pystr \<Rightarrow> bool" where
  "no_tag [] = True"
| "no_tag (c # r) = ((c = 60 \<longrightarrow> \<not> tagcond r) \<and> no_tag r)"

fun ws_ok :: "pylib \<Rightarrow> pystr \<Rightarrow> bool" where
  "ws_ok L [] = True"
| "ws_ok L (c # r) =
     ((isspace L c \<longrightarrow> c = 32 \<and> (r = [] \<or> \<not> isspace L (hd r))) \<and> ws_ok L r)"

section \<open>The deduplicator: \<open>post_id\<close>, \<open>seen\<close>, \<open>prune_seen\<close>\<close>

text \<open>A feed entry: a dictionary in which each of the four keys may be missing.\<close>

record entry =
  e_id :: "pystr option"
  e_link :: "pystr option"
  e_title :: "pystr option"
  e_summary :: "pystr option"

text \<open>\<open>entry.get(key, "")\<close>\<close>

definition get_or_empty :: "pystr option \<Rightarrow> pystr" where
  "get_or_empty v = (case v of None \<Rightarrow> [] | Some s \<Rightarrow> s)"

definition post_id :: "pylib \<Rightarrow> entry \<Rightarrow> pystr" where
  "post_id L e = sha256_hexdigest L (get_or_empty (e_id e) @ get_or_empty (e_link e))"

text \<open>
  \<open>seen[k] = v\<close> on an \<open>OrderedDict\<close>: a key that is present keeps its place and takes
  the new value, a new key goes to the end.
\<close>

definition od_set :: "('k \<times> 'v) list \<Rightarrow> 'k \<Rightarrow> 'v \<Rightarrow> ('k \<times> 'v) list" where
  "od_set kvs k v =
     (if k \<in> fst ` set kvs then map (\<lambda>(k', v'). if k' = k then (k', v) else (k', v')) kvs
      else kvs @ [(k, v)])"

text \<open>\<open>while len(seen) > MAX_SEEN: seen.popitem(last=False)\<close>\<close>

function prune_seen :: "('k \<times> 'v) list \<Rightarrow> ('k \<times> 'v) list" where
  "prune_seen kvs = (if length kvs > MAX_SEEN then prune_seen (tl kvs) else kvs)"
  by pat_completeness auto
termination
  by (relation "measure length") auto

declare prune_seen.simps [simp del]

text \<open>The \<open>n\<close> most recent of a list in insertion order: its last \<open>n\<close> elements.\<close>

definition most_recent :: "nat \<Rightarrow> 'a list \<Rightarrow> 'a list" where
  "most_recent n xs = drop (length xs - n) xs"

section \<open>The poller\<close>

definition SUBREDDITS :: "pystr list" where
  "SUBREDDITS = map py
     [''CryptoCurrency'', ''Bitcoin'', ''ethereum'', ''binance'', ''CryptoMarkets'',
      ''CoinBase'', ''Kraken'', ''CoinbaseSupport'', ''kucoin'', ''Gemini'',
      ''Metamask'', ''ledgerwallet'', ''Trezor'', ''trustwallet'', ''cardano'',
      ''solana'', ''dogecoin'', ''Ripple'', ''polkadot'', ''UniSwap'']"

text \<open>Lines 162 to 164: the text the matcher is run on.\<close>

definition entry_text :: "pylib \<Rightarrow> entry \<Rightarrow> pystr" where
  "entry_text L e =
     safe L (get_or_empty (e_title e)) @ py '' '' @ safe L (get_or_empty (e_summary e))"

text \<open>Lines 170 to 178 (128276 is the bell, 10 the newline).\<close>

definition format_msg :: "pylib \<Rightarrow> pystr \<Rightarrow> entry \<Rightarrow> match \<Rightarrow> pystr" where
  "format_msg L sub e m =
     (let title = safe L (get_or_empty (e_title e));
          summary = safe L (get_or_empty (e_summary e));
          snippet = take 300 summary @ (if length summary > 300 then py ''...'' else [])
      in 128276 # py '' <b>Keyword:</b> '' @ safe L (get_or_empty (m_group1 m)) @ [10]
         @ py ''<b>Subreddit:</b> r/'' @ safe L sub @ [10]
         @ py ''<b>Title:</b> '' @ title @ [10]
         @ py ''<b>Snippet:</b> '' @ snippet @ [10]
         @ py ''<b>Link:</b> '' @ get_or_empty (e_link e))"

text \<open>
  The body of the loop over the entries, lines 158 to 182, with \<open>now\<close> the clock
  reading of line 147: an entry whose fingerprint is in \<open>seen\<close> is skipped, so is an
  entry without a match; a matching one is enqueued, recorded, and \<open>seen\<close> is pruned.
\<close>

definition process_entry :: "pylib \<Rightarrow> pystr \<Rightarrow> real \<Rightarrow> entry \<Rightarrow> bot_state \<Rightarrow> bot_state" where
  "process_entry L sub now e st =
     (let pid = post_id L e in
      if pid \<in> fst ` set (seen st) then st
      else
        (case re_search (keyword_regex L) (entry_text L e) of
           None \<Rightarrow> st
         | Some m \<Rightarrow>
             (let st1 = enqueue (format_msg L sub e m) st;
                  st2 = st1\<lparr>seen := od_set (seen st1) pid now\<rparr>
              in st2\<lparr>seen := prune_seen (seen st2)\<rparr>)))"

text \<open>
  Lines 154 to 185 for one subreddit: the feed is fetched, or the fetch raises and the
  subreddit is given up for this cycle; the first 15 entries are processed in order.
\<close>

datatype fetch = Fetched "entry list" | Fetch_failed

definition poll_source :: "pylib \<Rightarrow> pystr \<Rightarrow> real \<Rightarrow> fetch \<Rightarrow> bot_state \<Rightarrow> bot_state" where
  "poll_source L sub now f st =
     (case f of
        Fetch_failed \<Rightarrow> st
      | Fetched entries \<Rightarrow> foldl (\<lambda>s e. process_entry L sub now e s) st (take 15 entries))"

text \<open>
  Entries processed one after the other, each with the subreddit and the clock reading
  of its cycle: what a run of the program does to \<open>seen\<close>.
\<close>

fun process_all :: "pylib \<Rightarrow> (pystr \<times> real \<times> entry) list \<Rightarrow> bot_state \<Rightarrow> bot_state" where
  "process_all L [] st = st"
| "process_all L ((sub, now, e) # items) st = process_all L items (process_entry L sub now e st)"

text \<open>An entry is recorded when its fingerprint is new and its text has a match.\<close>

definition has_match :: "pylib \<Rightarrow> entry \<Rightarrow> bool" where
  "has_match L e = (re_search (keyword_regex L) (entry_text L e) \<noteq> None)"

definition is_recorded :: "pylib \<Rightarrow> entry \<Rightarrow> bot_state \<Rightarrow> bool" where
  "is_recorded L e st = (post_id L e \<notin> fst ` set (seen st) \<and> has_match L e)"

text \<open>The insertions into \<open>seen\<close> of such a run, in order.\<close>

fun insertions :: "pylib \<Rightarrow> (pystr \<times> real \<times> entry) list \<Rightarrow> bot_state \<Rightarrow> (pystr \<times> real) list" where
  "insertions L [] st = []"
| "insertions L ((sub, now, e) # items) st =
     (if is_recorded L e st then [(post_id L e, now)] else [])
     @ insertions L items (process_entry L sub now e st)"

section \<open>The dispatcher: \<open>send_worker\<close>\<close>

text \<open>
  What one call of \<open>send_worker\<close> reads from the world: the clock at line 105, the outcome
  of \<open>session.post\<close> (a response with its status code, or an exception), and the clock at
  line 130. What it does to the world: it sleeps and it posts a payload.
\<close>

datatype post_result = Response int | Raised

record send_env =
  clock_spacing :: real
  posted :: post_result
  clock_sent :: real

datatype effect = Sleep real | Post pystr post_result

text \<open>\<open>min(backoff * 2 if backoff else BACKOFF_START, BACKOFF_MAX)\<close>\<close>

definition escalate :: "int \<Rightarrow> int" where
  "escalate b = min (if b \<noteq> 0 then b * 2 else BACKOFF_START) BACKOFF_MAX"

definition send_worker :: "send_env \<Rightarrow> bot_state \<Rightarrow> bot_state \<times> effect list" where
  "send_worker env st =
     (case queue st of
        [] \<Rightarrow> (st, [])
      | msg # rest \<Rightarrow>
          (let sleep_backoff = (if backoff st > 0 then [Sleep (of_int (backoff st))] else []);
               wait = SEND_INTERVAL - (clock_spacing env - last_send st);
               sleep_wait = (if wait > 0 then [Sleep wait] else []);
               popped = st\<lparr>queue := rest\<rparr>;
               effects = sleep_backoff @ sleep_wait @ [Post (take 4000 msg) (posted env)]
           in case posted env of
                Response status_code \<Rightarrow>
                  if status_code = 429
                  then (popped\<lparr>backoff := escalate (backoff popped),
                               queue := msg # queue popped\<rparr>, effects)
                  else (popped\<lparr>backoff := 0, last_send := clock_sent env\<rparr>, effects)
              | Raised \<Rightarrow>
                  (popped\<lparr>queue := msg # queue popped,
                          backoff := escalate (backoff popped)\<rparr>, effects)))"

text \<open>Successive calls of \<open>send_worker\<close>, one environment per call.\<close>

fun send_workers :: "send_env list \<Rightarrow> bot_state \<Rightarrow> bot_state \<times> effect list" where
  "send_workers [] st = (st, [])"
| "send_workers (env # envs) st =
     (let (st1, effects1) = send_worker env st;
          (st2, effects2) = send_workers envs st1
      in (st2, effects1 @ effects2))"

text \<open>A send fails on the rate-limit status and on an exception of the transport.\<close>

definition send_failed :: "post_result \<Rightarrow> bool" where
  "send_failed r = (case r of Response status_code \<Rightarrow> status_code = 429 | Raised \<Rightarrow> True)"

text \<open>The payloads the transport took: posted, and not answered by a failure.\<close>

fun delivered :: "effect list \<Rightarrow> pystr list" where
  "delivered [] = []"
| "delivered (Sleep d # es) = delivered es"
| "delivered (Post payload r # es) =
     (if send_failed r then delivered es else payload # delivered es)"

text \<open>
  The queue is touched by two operations only: \<open>enqueue\<close> (lines 141, 150 and 180) and
  \<open>send_worker\<close> (lines 187 and 191). A run of the program is a sequence of them.
\<close>

datatype event = Enqueue pystr | Dispatch send_env

fun run_events :: "event list \<Rightarrow> bot_state \<Rightarrow> bot_state \<times> effect list" where
  "run_events [] st = (st, [])"
| "run_events (Enqueue msg # evs) st = run_events evs (enqueue msg st)"
| "run_events (Dispatch env # evs) st =
     (let (st1, effects1) = send_worker env st;
          (st2, effects2) = run_events evs st1
      in (st2, effects1 @ effects2))"

fun enqueued :: "event list \<Rightarrow> pystr list" where
  "enqueued [] = []"
| "enqueued (Enqueue msg # evs) = msg # enqueued evs"
| "enqueued (Dispatch env # evs) = enqueued evs"

section \<open>Startup and heartbeat\<close>

definition STARTUP_MSG :: pystr where
  "STARTUP_MSG = 128640 # py '' Reddit crypto monitoring bot started''"

definition HEARTBEAT_MSG :: pystr where
  "HEARTBEAT_MSG = 128994 # py '' Bot heartbeat: still running''"

text \<open>The state in which the main loop is entered (line 141).\<close>

definition startup :: bot_state where
  "startup = enqueue STARTUP_MSG initial_globals"

text \<open>Lines 149 to 151, with \<open>now\<close> the clock reading of line 147.\<close>

definition heartbeat :: "real \<Rightarrow> bot_state \<Rightarrow> bot_state" where
  "heartbeat now st =
     (if now - last_heartbeat st > of_int HEARTBEAT_INTERVAL
      then (enqueue HEARTBEAT_MSG st)\<lparr>last_heartbeat := now\<rparr>
      else st)"

section \<open>An instance of the library for examples\<close>

text \<open>
  For evaluating the model on ASCII texts: the character classes and the case folding
  of Python on the ASCII characters, an \<open>unescape\<close> that decodes the five entities
  \<open>html.escape\<close> writes, and a stand-in for the hash.
\<close>

definition ascii_lower :: "nat \<Rightarrow> nat" where
  "ascii_lower c = (if 65 \<le> c \<and> c \<le> 90 then c + 32 else c)"

fun unescape_basic :: "pystr \<Rightarrow> pystr" where
  "unescape_basic [] = []"
| "unescape_basic (c # r) =
     (if c = 38 \<and> take 4 r = py ''amp;'' then 38 # unescape_basic (drop 4 r)
      else if c = 38 \<and> take 3 r = py ''lt;'' then 60 # unescape_basic (drop 3 r)
      else if c = 38 \<and> take 3 r = py ''gt;'' then 62 # unescape_basic (drop 3 r)
      else if c = 38 \<and> take 5 r = py ''quot;'' then 34 # unescape_basic (drop 5 r)
      else if c = 38 \<and> take 5 r = py ''#x27;'' then 39 # unescape_basic (drop 5 r)
      else c # unescape_basic r)"

definition ascii_lib :: pylib where
  "ascii_lib =
     \<lparr>isspace = (\<lambda>c. c \<in> {9, 10, 11, 12, 13, 28, 29, 30, 31, 32}),
      isword = (\<lambda>c. 48 \<le> c \<and> c \<le> 57 \<or> 65 \<le> c \<and> c \<le> 90 \<or> c = 95 \<or> 97 \<le> c \<and> c \<le> 122),
      ci_eq = (\<lambda>p c. ascii_lower p = ascii_lower c),
      unescape = unescape_basic,
      sha256_hexdigest = (\<lambda>s. s)\<rparr>"

section \<open>Backoff\<close>

lemma escalate_pos: "0 \<le> b \<Longrightarrow> 0 < escalate b"
  by (simp add: escalate_def BACKOFF_START_def BACKOFF_MAX_def)

lemma send_worker_failed:
  assumes "queue st \<noteq> []" "send_failed (posted env)"
  shows "fst (send_worker env st) = st\<lparr>backoff := escalate (backoff st)\<rparr>"
  using assms
  by (cases "queue st"; cases "posted env")
     (simp_all add: send_worker_def send_failed_def Let_def)

lemma send_worker_accepted:
  assumes "queue st = msg # rest" "\<not> send_failed (posted env)"
  shows "fst (send_worker env st) =
           st\<lparr>queue := rest, backoff := 0, last_send := clock_sent env\<rparr>"
  using assms
  by (cases "posted env") (simp_all add: send_worker_def send_failed_def Let_def)

lemma send_workers_failed:
  assumes "queue st \<noteq> []" "\<forall>env \<in> set envs. send_failed (posted env)"
  shows "fst (send_workers envs st) = st\<lparr>backoff := (escalate ^^ length envs) (backoff st)\<rparr>"
  using assms
proof (induction envs arbitrary: st)
  case Nil
  then show ?case by simp
next
  case (Cons env envs)
  let ?st1 = "st\<lparr>backoff := escalate (backoff st)\<rparr>"
  have one: "fst (send_worker env st) = ?st1"
    using Cons.prems by (simp add: send_worker_failed)
  have "fst (send_workers envs ?st1) =
          ?st1\<lparr>backoff := (escalate ^^ length envs) (backoff ?st1)\<rparr>"
    using Cons.prems by (intro Cons.IH) simp_all
  then show ?case
    using one by (simp add: split_beta Let_def funpow_swap1)
qed

lemma escalate_chain:
  "(escalate ^^ Suc n) 0 = min (5 * 2 ^ n) 120"
proof (induction n)
  case 0
  show ?case by (simp add: escalate_def BACKOFF_START_def BACKOFF_MAX_def)
next
  case (Suc n)
  have "(escalate ^^ Suc (Suc n)) 0 = escalate (min (5 * 2 ^ n) 120)"
    using Suc.IH by simp
  also have "\<dots> = min (5 * 2 ^ Suc n) 120"
    by (simp add: escalate_def BACKOFF_START_def BACKOFF_MAX_def min_def)
  finally show ?case .
qed

text \<open>
  C3. From a backoff delay of 0 and a queue that holds a message, after \<open>n \<ge> 1\<close>
  consecutive calls of the dispatcher that each end in a rate-limit response or an
  exception, the delay is \<open>min (5 * 2 ^ (n - 1)) 120\<close>, that is 5, 10, 20, 40, 80, 120,
  120, ...; and one call that sends successfully sets the delay to 0, whatever it was.
\<close>

theorem backoff_escalation_and_reset:
  "(backoff st = 0 \<and> queue st \<noteq> [] \<and> envs \<noteq> [] \<and>
      (\<forall>env \<in> set envs. send_failed (posted env))
     \<longrightarrow> backoff (fst (send_workers envs st)) = min (5 * 2 ^ (length envs - 1)) 120)
   \<and> (queue st1 \<noteq> [] \<and> \<not> send_failed (posted env1)
     \<longrightarrow> backoff (fst (send_worker env1 st1)) = 0)"
proof (intro conjI impI)
  assume a: "backoff st = 0 \<and> queue st \<noteq> [] \<and> envs \<noteq> [] \<and>
    (\<forall>env \<in> set envs. send_failed (posted env))"
  then obtain n where n: "length envs = Suc n"
    by (cases envs) auto
  have "backoff (fst (send_workers envs st)) = (escalate ^^ Suc n) 0"
    using a n by (simp add: send_workers_failed)
  then show "backoff (fst (send_workers envs st)) = min (5 * 2 ^ (length envs - 1)) 120"
    using n by (simp only: escalate_chain) simp
next
  assume b: "queue st1 \<noteq> [] \<and> \<not> send_failed (posted env1)"
  then obtain msg rest where "queue st1 = msg # rest"
    by (cases "queue st1") auto
  then show "backoff (fst (send_worker env1 st1)) = 0"
    using b by (simp add: send_worker_accepted)
qed

text \<open>A failing call, then six more, then a success: the delay reaches the cap, then 0.\<close>

theorem backoff_escalation_and_reset_witness:
  "backoff (fst (send_workers
       [\<lparr>clock_spacing = 10, posted = Response 429, clock_sent = 11\<rparr>,
        \<lparr>clock_spacing = 20, posted = Raised, clock_sent = 21\<rparr>,
        \<lparr>clock_spacing = 30, posted = Response 429, clock_sent = 31\<rparr>] startup)) = 20
   \<and> backoff (fst (send_worker \<lparr>clock_spacing = 40, posted = Response 200, clock_sent = 41\<rparr>
         (startup\<lparr>backoff := 80\<rparr>))) = 0"
  using backoff_escalation_and_reset [of startup
      "[\<lparr>clock_spacing = 10, posted = Response 429, clock_sent = 11\<rparr>,
        \<lparr>clock_spacing = 20, posted = Raised, clock_sent = 21\<rparr>,
        \<lparr>clock_spacing = 30, posted = Response 429, clock_sent = 31\<rparr>]"
      "startup\<lparr>backoff := 80\<rparr>"
      "\<lparr>clock_spacing = 40, posted = Response 200, clock_sent = 41\<rparr>"]
  by (simp add: startup_def enqueue_def initial_globals_def send_failed_def)

section \<open>What a call of the dispatcher does to the state\<close>

text \<open>
  C4. On a queue with head \<open>msg\<close>, a response whose status is not 429 (a non-2xx error
  included) consumes \<open>msg\<close>, sets the backoff delay to 0 and sets \<open>last_send\<close> to the
  clock reading taken after the post; a 429 response puts \<open>msg\<close> back at the head and
  leaves \<open>last_send\<close> as it was.
\<close>

theorem non_rate_limit_response_consumed:
  assumes "queue st = msg # rest"
  shows "(posted env = Response status_code \<and> status_code \<noteq> 429 \<longrightarrow>
            queue (fst (send_worker env st)) = rest \<and>
            backoff (fst (send_worker env st)) = 0 \<and>
            last_send (fst (send_worker env st)) = clock_sent env)
       \<and> (posted env = Response 429 \<longrightarrow>
            queue (fst (send_worker env st)) = msg # rest \<and>
            last_send (fst (send_worker env st)) = last_send st)"
  using assms by (simp add: send_worker_def Let_def)

theorem non_rate_limit_response_consumed_witness:
  "queue (fst (send_worker \<lparr>clock_spacing = 50, posted = Response 400, clock_sent = 52\<rparr>
       (startup\<lparr>backoff := 10, last_send := 7\<rparr>))) = []
   \<and> backoff (fst (send_worker \<lparr>clock_spacing = 50, posted = Response 400, clock_sent = 52\<rparr>
       (startup\<lparr>backoff := 10, last_send := 7\<rparr>))) = 0
   \<and> last_send (fst (send_worker \<lparr>clock_spacing = 50, posted = Response 400, clock_sent = 52\<rparr>
       (startup\<lparr>backoff := 10, last_send := 7\<rparr>))) = 52
   \<and> queue (fst (send_worker \<lparr>clock_spacing = 50, posted = Response 429, clock_sent = 52\<rparr>
       (startup\<lparr>backoff := 10, last_send := 7\<rparr>))) = [STARTUP_MSG]
   \<and> last_send (fst (send_worker \<lparr>clock_spacing = 50, posted = Response 429, clock_sent = 52\<rparr>
       (startup\<lparr>backoff := 10, last_send := 7\<rparr>))) = 7"
  using non_rate_limit_response_consumed [of "startup\<lparr>backoff := 10, last_send := 7\<rparr>"
      STARTUP_MSG "[]" "\<lparr>clock_spacing = 50, posted = Response 400, clock_sent = 52\<rparr>" 400]
    non_rate_limit_response_consumed [of "startup\<lparr>backoff := 10, last_send := 7\<rparr>"
      STARTUP_MSG "[]" "\<lparr>clock_spacing = 50, posted = Response 429, clock_sent = 52\<rparr>" 429]
  by (simp add: startup_def enqueue_def initial_globals_def)

section \<open>Order of delivery\<close>

lemma delivered_append: "delivered (es @ fs) = delivered es @ delivered fs"
  by (induction es rule: delivered.induct) simp_all

lemma delivered_send_worker:
  "delivered (snd (send_worker env st)) =
     (case queue st of
        [] \<Rightarrow> []
      | msg # rest \<Rightarrow> if send_failed (posted env) then [] else [take 4000 msg])"
  by (cases "queue st"; cases "posted env")
     (simp_all add: send_worker_def send_failed_def Let_def delivered_append)

lemma queue_send_worker:
  "queue (fst (send_worker env st)) =
     (case queue st of
        [] \<Rightarrow> []
      | msg # rest \<Rightarrow> if send_failed (posted env) then msg # rest else rest)"
  by (cases "queue st"; cases "posted env")
     (simp_all add: send_worker_def send_failed_def Let_def)

lemma run_events_fifo:
  "delivered (snd (run_events evs st)) =
     map (take 4000) (take (length (delivered (snd (run_events evs st))))
       (queue st @ enqueued evs))
   \<and> queue (fst (run_events evs st)) =
     drop (length (delivered (snd (run_events evs st)))) (queue st @ enqueued evs)"
proof (induction evs st rule: run_events.induct)
  case (1 st)
  show ?case by simp
next
  case (2 msg evs st)
  then show ?case by (simp add: enqueue_def)
next
  case (3 env evs st)
  obtain st1 effects1 where w: "send_worker env st = (st1, effects1)"
    by (cases "send_worker env st")
  obtain st2 effects2 where r: "run_events evs st1 = (st2, effects2)"
    by (cases "run_events evs st1")
  have ih: "delivered effects2 =
        map (take 4000) (take (length (delivered effects2)) (queue st1 @ enqueued evs))
      \<and> queue st2 = drop (length (delivered effects2)) (queue st1 @ enqueued evs)"
    using "3.IH" [of "(st1, effects1)" st1 effects1] w r by simp
  have d1: "delivered effects1 =
      (case queue st of [] \<Rightarrow> []
       | msg # rest \<Rightarrow> if send_failed (posted env) then [] else [take 4000 msg])"
    using delivered_send_worker [of env st] w by simp
  have q1: "queue st1 =
      (case queue st of [] \<Rightarrow> []
       | msg # rest \<Rightarrow> if send_failed (posted env) then msg # rest else rest)"
    using queue_send_worker [of env st] w by simp
  show ?case
  proof (cases "queue st")
    case Nil
    then show ?thesis using ih d1 q1 w r by (simp add: delivered_append)
  next
    case (Cons msg rest)
    show ?thesis
    proof (cases "send_failed (posted env)")
      case True
      then show ?thesis using ih d1 q1 w r Cons by (simp add: delivered_append)
    next
      case False
      then show ?thesis using ih d1 q1 w r Cons by (simp add: delivered_append)
    qed
  qed
qed

text \<open>
  C1. When the queue is \<open>m1, m2, ...\<close> and sending \<open>m1\<close> fails (a 429 response or an
  exception), the queue after the call is again \<open>m1, m2, ...\<close>: \<open>m1\<close> is back at the head
  and nothing is lost. From there, whatever enqueues and dispatcher calls follow and
  however they end, the payloads the transport takes are, in order, the first \<open>n\<close>
  messages of \<open>m1, m2, ...\<close> followed by the later enqueues (each cut to 4000 characters),
  and the queue holds exactly the others: \<open>m1\<close> is delivered before \<open>m2\<close>, and both before
  any message enqueued after them.
\<close>

theorem queue_order_under_failure:
  assumes "queue st = m1 # m2 # rest" and "send_failed (posted env)"
  shows "queue (fst (send_worker env st)) = m1 # m2 # rest
       \<and> delivered (snd (run_events evs (fst (send_worker env st)))) =
           map (take 4000)
             (take (length (delivered (snd (run_events evs (fst (send_worker env st))))))
               (m1 # m2 # rest @ enqueued evs))
       \<and> queue (fst (run_events evs (fst (send_worker env st)))) =
           drop (length (delivered (snd (run_events evs (fst (send_worker env st))))))
             (m1 # m2 # rest @ enqueued evs)"
proof -
  have q: "queue (fst (send_worker env st)) = m1 # m2 # rest"
    using assms by (simp add: queue_send_worker)
  show ?thesis
    using run_events_fifo [of evs "fst (send_worker env st)"] q by simp
qed

text \<open>
  The first post of \<open>m1\<close> raises; then \<open>m1\<close> is sent, \<open>m3\<close> is enqueued, \<open>m2\<close> is answered
  by 429 once and then sent: the transport takes \<open>m1\<close>, then \<open>m2\<close>, and \<open>m3\<close> is left.
\<close>

theorem queue_order_under_failure_witness:
  "queue (fst (send_worker \<lparr>clock_spacing = 1, posted = Raised, clock_sent = 2\<rparr>
      (initial_globals\<lparr>queue := [py ''m1'', py ''m2'']\<rparr>))) = [py ''m1'', py ''m2'']
   \<and> delivered (snd (run_events
        [Dispatch \<lparr>clock_spacing = 3, posted = Response 200, clock_sent = 4\<rparr>,
         Enqueue (py ''m3''),
         Dispatch \<lparr>clock_spacing = 5, posted = Response 429, clock_sent = 6\<rparr>,
         Dispatch \<lparr>clock_spacing = 7, posted = Response 200, clock_sent = 8\<rparr>]
        (fst (send_worker \<lparr>clock_spacing = 1, posted = Raised, clock_sent = 2\<rparr>
          (initial_globals\<lparr>queue := [py ''m1'', py ''m2'']\<rparr>))))) = [py ''m1'', py ''m2'']
   \<and> queue (fst (run_events
        [Dispatch \<lparr>clock_spacing = 3, posted = Response 200, clock_sent = 4\<rparr>,
         Enqueue (py ''m3''),
         Dispatch \<lparr>clock_spacing = 5, posted = Response 429, clock_sent = 6\<rparr>,
         Dispatch \<lparr>clock_spacing = 7, posted = Response 200, clock_sent = 8\<rparr>]
        (fst (send_worker \<lparr>clock_spacing = 1, posted = Raised, clock_sent = 2\<rparr>
          (initial_globals\<lparr>queue := [py ''m1'', py ''m2'']\<rparr>))))) = [py ''m3'']"
  using queue_order_under_failure [of "initial_globals\<lparr>queue := [py ''m1'', py ''m2'']\<rparr>"
      "py ''m1''" "py ''m2''" "[]" "\<lparr>clock_spacing = 1, posted = Raised, clock_sent = 2\<rparr>"
      "[Dispatch \<lparr>clock_spacing = 3, posted = Response 200, clock_sent = 4\<rparr>,
        Enqueue (py ''m3''),
        Dispatch \<lparr>clock_spacing = 5, posted = Response 429, clock_sent = 6\<rparr>,
        Dispatch \<lparr>clock_spacing = 7, posted = Response 200, clock_sent = 8\<rparr>]"]
  by (simp add: send_worker_def send_failed_def enqueue_def initial_globals_def Let_def
      escalate_def BACKOFF_START_def BACKOFF_MAX_def SEND_INTERVAL_def py_def)

section \<open>The first heartbeat\<close>

text \<open>
  C10. The main loop is entered with \<open>last_heartbeat = 0\<close> and the startup notice in the
  queue. \<open>now\<close> is the reading of \<open>time.time()\<close>, seconds since the epoch: as soon as it
  is above 1800 (any clock set later than 00:30 on 1 January 1970), the check of line 149
  passes in the first iteration, however short a time the process has run, and the
  heartbeat message is enqueued right after the startup notice; the timer is set to \<open>now\<close>.
\<close>

theorem first_iteration_heartbeat:
  assumes "of_int HEARTBEAT_INTERVAL < now"
  shows "last_heartbeat startup = 0
       \<and> queue (heartbeat now startup) = [STARTUP_MSG, HEARTBEAT_MSG]
       \<and> last_heartbeat (heartbeat now startup) = now"
  using assms by (simp add: heartbeat_def startup_def enqueue_def initial_globals_def)

theorem first_iteration_heartbeat_witness:
  "of_int HEARTBEAT_INTERVAL < (1762300800 :: real)
   \<and> queue (heartbeat 1762300800 startup) = [STARTUP_MSG, HEARTBEAT_MSG]
   \<and> last_heartbeat (heartbeat 1762300800 startup) = 1762300800"
  using first_iteration_heartbeat [of 1762300800]
  by (simp add: HEARTBEAT_INTERVAL_def)

section \<open>The seen-set\<close>

lemma prune_seen_drop: "prune_seen kvs = drop (length kvs - MAX_SEEN) kvs"
proof (induction kvs rule: prune_seen.induct)
  case (1 kvs)
  show ?case
  proof (cases "length kvs > MAX_SEEN")
    case True
    then obtain x xs where kvs: "kvs = x # xs" by (cases kvs) auto
    have "prune_seen kvs = prune_seen (tl kvs)"
      using True by (subst prune_seen.simps) simp
    also have "\<dots> = drop (length (tl kvs) - MAX_SEEN) (tl kvs)"
      using 1 True by simp
    also have "\<dots> = drop (length kvs - MAX_SEEN) kvs"
      using True kvs by (simp add: Suc_diff_le)
    finally show ?thesis .
  next
    case False
    then show ?thesis by (subst prune_seen.simps) simp
  qed
qed

lemma od_set_new: "k \<notin> fst ` set kvs \<Longrightarrow> od_set kvs k v = kvs @ [(k, v)]"
  by (simp add: od_set_def)

lemma seen_process_entry:
  "seen (process_entry L sub now e st) =
     (if is_recorded L e st then most_recent MAX_SEEN (seen st @ [(post_id L e, now)])
      else seen st)"
proof (cases "post_id L e \<in> fst ` set (seen st)")
  case True
  then show ?thesis by (simp add: process_entry_def is_recorded_def)
next
  case False
  show ?thesis
  proof (cases "re_search (keyword_regex L) (entry_text L e)")
    case None
    then show ?thesis
      using False by (simp add: process_entry_def is_recorded_def has_match_def)
  next
    case (Some m)
    then show ?thesis
      using False
      by (simp add: process_entry_def is_recorded_def has_match_def Let_def enqueue_def
          od_set_new prune_seen_drop most_recent_def)
  qed
qed

lemma most_recent_length: "length (most_recent n xs) \<le> n"
  by (simp add: most_recent_def)

lemma most_recent_id: "length xs \<le> n \<Longrightarrow> most_recent n xs = xs"
  by (simp add: most_recent_def)

lemma most_recent_append: "most_recent n (most_recent n xs @ ys) = most_recent n (xs @ ys)"
proof (cases "length xs \<le> n")
  case True
  then show ?thesis by (simp add: most_recent_def)
next
  case False
  then have "length ys + length xs - n = length xs + length ys - n" by simp
  with False show ?thesis by (simp add: most_recent_def)
qed

lemma seen_process_all:
  "length (seen st) \<le> MAX_SEEN \<Longrightarrow>
   seen (process_all L items st) = most_recent MAX_SEEN (seen st @ insertions L items st)"
proof (induction items arbitrary: st)
  case Nil
  then show ?case by (simp add: most_recent_id)
next
  case (Cons item items)
  obtain sub now e where item: "item = (sub, now, e)" by (cases item)
  let ?st1 = "process_entry L sub now e st"
  have len: "length (seen ?st1) \<le> MAX_SEEN"
    using Cons.prems by (simp add: seen_process_entry most_recent_length)
  have "seen (process_all L items ?st1) =
          most_recent MAX_SEEN (seen ?st1 @ insertions L items ?st1)"
    using len by (rule Cons.IH)
  also have "\<dots> = most_recent MAX_SEEN
      (seen st @ (if is_recorded L e st then [(post_id L e, now)] else [])
        @ insertions L items ?st1)"
  proof (cases "is_recorded L e st")
    case True
    then show ?thesis
      using most_recent_append [of MAX_SEEN "seen st @ [(post_id L e, now)]"]
      by (simp add: seen_process_entry)
  next
    case False
    then show ?thesis by (simp add: seen_process_entry)
  qed
  finally show ?case using item by simp
qed

text \<open>
  One poll of a subreddit is such a run over its first 15 entries.
\<close>

lemma foldl_process_entry:
  "foldl (\<lambda>s e. process_entry L sub now e s) st es
     = process_all L (map (\<lambda>e. (sub, now, e)) es) st"
  by (induction es arbitrary: st) simp_all

lemma poll_source_process_all:
  "poll_source L sub now (Fetched entries) st
     = process_all L (map (\<lambda>e. (sub, now, e)) (take 15 entries)) st"
  by (simp add: poll_source_def foldl_process_entry)

text \<open>
  C5. Over any sequence of entries processed from a state whose seen-set holds at most
  \<open>MAX_SEEN = 3000\<close> entries (the empty one of the program's start is such a state), the
  seen-set holds at most 3000 entries afterwards, and they are exactly the 3000 most
  recent of the entries it held followed by the insertions of the run, in insertion
  order, each with the timestamp of its insertion: pruning removes the oldest first.
\<close>

theorem seen_capacity:
  assumes "length (seen st) \<le> MAX_SEEN"
  shows "length (seen (process_all L items st)) \<le> MAX_SEEN
       \<and> seen (process_all L items st) = most_recent MAX_SEEN (seen st @ insertions L items st)"
  using assms by (simp add: seen_process_all most_recent_length)

text \<open>
  C6. When the seen-set holds the fingerprint \<open>fp\<close> with timestamp \<open>t0\<close>, processing an
  entry with that fingerprint at any time \<open>t1\<close> leaves the whole state as it was (line
  159 skips the entry before line 181 is reached), and processing any entry stores no
  timestamp for \<open>fp\<close> that was not stored before: \<open>t0\<close> is not overwritten.
\<close>

theorem first_seen_kept:
  assumes "(fp, t0) \<in> set (seen st)"
  shows "(post_id L e = fp \<longrightarrow> process_entry L sub t1 e st = st)
       \<and> (\<forall>t. (fp, t) \<in> set (seen (process_entry L sub t1 e st)) \<longrightarrow> (fp, t) \<in> set (seen st))"
proof (intro conjI impI allI)
  assume "post_id L e = fp"
  then have "post_id L e \<in> fst ` set (seen st)"
    using assms by force
  then show "process_entry L sub t1 e st = st"
    by (simp add: process_entry_def)
next
  fix t
  assume t: "(fp, t) \<in> set (seen (process_entry L sub t1 e st))"
  show "(fp, t) \<in> set (seen st)"
  proof (cases "is_recorded L e st")
    case True
    then have "post_id L e \<noteq> fp"
      using assms by (force simp: is_recorded_def)
    moreover have "(fp, t) \<in> set (seen st @ [(post_id L e, t1)])"
      using t True by (auto simp: seen_process_entry most_recent_def dest: in_set_dropD)
    ultimately show ?thesis by simp
  next
    case False
    then show ?thesis using t by (simp add: seen_process_entry)
  qed
qed

lemma keys_process_entry:
  "fst ` set (seen (process_entry L sub now e st)) \<subseteq>
     fst ` set (seen st) \<union> (if has_match L e then {post_id L e} else {})"
proof (cases "is_recorded L e st")
  case True
  then have m: "has_match L e" by (simp add: is_recorded_def has_match_def)
  have "set (seen (process_entry L sub now e st)) \<subseteq> set (seen st @ [(post_id L e, now)])"
    using True set_drop_subset [of _ "seen st @ [(post_id L e, now)]"]
    by (simp only: seen_process_entry most_recent_def if_True)
  then have "fst ` set (seen (process_entry L sub now e st))
      \<subseteq> fst ` set (seen st @ [(post_id L e, now)])"
    by (rule image_mono)
  then show ?thesis using m by auto
next
  case False
  then show ?thesis by (simp add: seen_process_entry)
qed

lemma keys_process_all:
  "fst ` set (seen (process_all L items st)) \<subseteq>
     fst ` set (seen st) \<union> post_id L ` {e \<in> (snd \<circ> snd) ` set items. has_match L e}"
proof (induction items arbitrary: st)
  case Nil
  show ?case by simp
next
  case (Cons item items)
  obtain sub now e where item: "item = (sub, now, e)" by (cases item)
  let ?st1 = "process_entry L sub now e st"
  have ih: "fst ` set (seen (process_all L items ?st1)) \<subseteq>
     fst ` set (seen ?st1) \<union> post_id L ` {e \<in> (snd \<circ> snd) ` set items. has_match L e}"
    by (rule Cons.IH)
  have step: "fst ` set (seen ?st1) \<subseteq>
     fst ` set (seen st) \<union> (if has_match L e then {post_id L e} else {})"
    by (rule keys_process_entry)
  show ?case
  proof
    fix k
    assume "k \<in> fst ` set (seen (process_all L (item # items) st))"
    then have "k \<in> fst ` set (seen (process_all L items ?st1))"
      by (simp add: item)
    then consider "k \<in> fst ` set (seen ?st1)"
      | "k \<in> post_id L ` {e \<in> (snd \<circ> snd) ` set items. has_match L e}"
      using ih by blast
    then show "k \<in> fst ` set (seen st) \<union>
        post_id L ` {e \<in> (snd \<circ> snd) ` set (item # items). has_match L e}"
    proof cases
      case 1
      then have "k \<in> fst ` set (seen st) \<or> (has_match L e \<and> k = post_id L e)"
        using step by (auto split: if_splits)
      then show ?thesis by (auto simp: item)
    next
      case 2
      then show ?thesis by auto
    qed
  qed
qed

text \<open>
  C9. Processing an entry whose sanitized title, a space and its sanitized summary hold
  no keyword match leaves the state, and so the seen-set, unchanged; and over any
  sequence of entries every fingerprint in the seen-set afterwards was there before or
  is the fingerprint of a processed entry that has a match.
\<close>

theorem no_match_not_recorded:
  assumes "\<not> has_match L e"
  shows "process_entry L sub now e st = st
       \<and> fst ` set (seen (process_all L items st)) \<subseteq>
           fst ` set (seen st) \<union> post_id L ` {e' \<in> (snd \<circ> snd) ` set items. has_match L e'}"
  using assms keys_process_all [of L items st]
  by (simp add: process_entry_def Let_def has_match_def)

section \<open>The deduplicator and the poller on examples\<close>

lemmas eval_regex = re_search_def search_from.simps keyword_regex_def KEYWORDS_def ascii_lib_def match_here_def
  at_boundary_def advance_def ascii_lower_def py_def

lemmas eval_safe = safe_def re_sub_def sub_from.simps tag_regex_def space_regex_def
  strip_def html_escape_def str_replace_def

lemma example_has_match:
  "has_match ascii_lib \<lparr>e_id = Some (py ''t1''), e_link = Some (py ''http://x''),
     e_title = Some (py ''Wallet locked after KYC''), e_summary = Some []\<rparr>"
  by (simp add: has_match_def entry_text_def get_or_empty_def eval_safe eval_regex)

lemma example_no_match:
  "\<not> has_match ascii_lib \<lparr>e_id = Some (py ''t2''), e_link = None,
     e_title = Some (py ''A <b>quiet</b> day''), e_summary = Some (py ''walletx &amp; more'')\<rparr>"
  by (simp add: has_match_def entry_text_def get_or_empty_def eval_safe eval_regex)

text \<open>The same item fetched in two cycles is recorded once, with its first timestamp.\<close>

theorem seen_capacity_witness:
  "length (seen initial_globals) \<le> MAX_SEEN
   \<and> seen (process_all ascii_lib
        [(py ''Bitcoin'', 100, \<lparr>e_id = Some (py ''t1''), e_link = Some (py ''http://x''),
           e_title = Some (py ''Wallet locked after KYC''), e_summary = Some []\<rparr>),
         (py ''Bitcoin'', 220, \<lparr>e_id = Some (py ''t1''), e_link = Some (py ''http://x''),
           e_title = Some (py ''Wallet locked after KYC''), e_summary = Some []\<rparr>)]
        initial_globals) = [(py ''t1http://x'', 100)]"
  using seen_capacity [of initial_globals ascii_lib
        "[(py ''Bitcoin'', 100, \<lparr>e_id = Some (py ''t1''), e_link = Some (py ''http://x''),
           e_title = Some (py ''Wallet locked after KYC''), e_summary = Some []\<rparr>),
         (py ''Bitcoin'', 220, \<lparr>e_id = Some (py ''t1''), e_link = Some (py ''http://x''),
           e_title = Some (py ''Wallet locked after KYC''), e_summary = Some []\<rparr>)]"]
    example_has_match
  by (simp add: initial_globals_def most_recent_def MAX_SEEN_def is_recorded_def
      seen_process_entry post_id_def get_or_empty_def ascii_lib_def py_def)

theorem first_seen_kept_witness:
  "(py ''t1http://x'', 100) \<in> set (seen (initial_globals\<lparr>seen := [(py ''t1http://x'', 100)]\<rparr>))
   \<and> process_entry ascii_lib (py ''Bitcoin'') 220
        \<lparr>e_id = Some (py ''t1''), e_link = Some (py ''http://x''),
          e_title = Some (py ''Wallet locked after KYC''), e_summary = Some []\<rparr>
        (initial_globals\<lparr>seen := [(py ''t1http://x'', 100)]\<rparr>)
       = initial_globals\<lparr>seen := [(py ''t1http://x'', 100)]\<rparr>"
  using first_seen_kept [of "py ''t1http://x''" 100
      "initial_globals\<lparr>seen := [(py ''t1http://x'', 100)]\<rparr>" ascii_lib
      "\<lparr>e_id = Some (py ''t1''), e_link = Some (py ''http://x''),
        e_title = Some (py ''Wallet locked after KYC''), e_summary = Some []\<rparr>"
      "py ''Bitcoin''" 220]
  by (simp add: initial_globals_def post_id_def get_or_empty_def ascii_lib_def py_def)

theorem no_match_not_recorded_witness:
  "\<not> has_match ascii_lib \<lparr>e_id = Some (py ''t2''), e_link = None,
     e_title = Some (py ''A <b>quiet</b> day''), e_summary = Some (py ''walletx &amp; more'')\<rparr>
   \<and> process_entry ascii_lib (py ''Bitcoin'') 100
        \<lparr>e_id = Some (py ''t2''), e_link = None,
          e_title = Some (py ''A <b>quiet</b> day''), e_summary = Some (py ''walletx &amp; more'')\<rparr>
        initial_globals = initial_globals"
  using no_match_not_recorded [of ascii_lib
      "\<lparr>e_id = Some (py ''t2''), e_link = None,
        e_title = Some (py ''A <b>quiet</b> day''), e_summary = Some (py ''walletx &amp; more'')\<rparr>"
      "py ''Bitcoin''" 100 initial_globals "[]"]
    example_no_match
  by simp

section \<open>Fingerprints\<close>

text \<open>
  C2, as the code has it. The fingerprint is the hash of the concatenation of \<open>id\<close> and
  \<open>link\<close>, with nothing between them. Entries with the same \<open>(id, link)\<close>, and more
  generally with the same concatenation, have the same fingerprint, whatever their other
  fields; and two fingerprints are equal only when the hash takes the same value on the
  two concatenations.
\<close>

theorem fingerprint_of_concatenation:
  "(e_id a = e_id b \<and> e_link a = e_link b \<longrightarrow> post_id L a = post_id L b)
   \<and> (get_or_empty (e_id a) @ get_or_empty (e_link a)
        = get_or_empty (e_id b) @ get_or_empty (e_link b) \<longrightarrow> post_id L a = post_id L b)
   \<and> (post_id L a = post_id L b \<longrightarrow>
        sha256_hexdigest L (get_or_empty (e_id a) @ get_or_empty (e_link a))
        = sha256_hexdigest L (get_or_empty (e_id b) @ get_or_empty (e_link b)))"
  by (simp add: post_id_def)

theorem fingerprint_of_concatenation_witness:
  "post_id ascii_lib \<lparr>e_id = Some (py ''t1''), e_link = Some (py ''http://x''),
       e_title = Some (py ''first''), e_summary = None\<rparr>
   = post_id ascii_lib \<lparr>e_id = Some (py ''t1''), e_link = Some (py ''http://x''),
       e_title = Some (py ''second''), e_summary = Some (py ''other'')\<rparr>"
  using fingerprint_of_concatenation [of
      "\<lparr>e_id = Some (py ''t1''), e_link = Some (py ''http://x''),
        e_title = Some (py ''first''), e_summary = None\<rparr>"
      "\<lparr>e_id = Some (py ''t1''), e_link = Some (py ''http://x''),
        e_title = Some (py ''second''), e_summary = Some (py ''other'')\<rparr>" ascii_lib]
  by simp

text \<open>
  The pairs \<open>("ab", "c")\<close> and \<open>("a", "bc")\<close> differ in \<open>id\<close> and in \<open>link\<close> and have
  the same concatenation: their fingerprints are equal for every hash function, so
  distinct pairs do map to the same fingerprint systematically.
\<close>

theorem distinct_pairs_collide:
  "(e_id \<lparr>e_id = Some (py ''ab''), e_link = Some (py ''c''), e_title = None, e_summary = None\<rparr>,
    e_link \<lparr>e_id = Some (py ''ab''), e_link = Some (py ''c''), e_title = None, e_summary = None\<rparr>)
   \<noteq> (e_id \<lparr>e_id = Some (py ''a''), e_link = Some (py ''bc''), e_title = None, e_summary = None\<rparr>,
      e_link \<lparr>e_id = Some (py ''a''), e_link = Some (py ''bc''), e_title = None, e_summary = None\<rparr>)
   \<and> (\<forall>L. post_id L \<lparr>e_id = Some (py ''ab''), e_link = Some (py ''c''),
                 e_title = None, e_summary = None\<rparr>
          = post_id L \<lparr>e_id = Some (py ''a''), e_link = Some (py ''bc''),
                 e_title = None, e_summary = None\<rparr>)"
  by (simp add: post_id_def get_or_empty_def py_def)

section \<open>The matcher\<close>

lemma first_some_map: "first_some f (map h xs) = first_some (\<lambda>x. f (h x)) xs"
  by (induction xs) (simp_all split: option.splits)

lemma first_some_find:
  "first_some (\<lambda>x. if P x then Some (h x) else None) xs = map_option h (find P xs)"
  by (induction xs) simp_all

lemma rmatch_alternation:
  "rs \<noteq> [] \<Longrightarrow> rmatch (alternation rs) prev rest g k = first_some (\<lambda>r. rmatch r prev rest g k) rs"
proof (induction rs rule: alternation.induct)
  case 1
  then show ?case by simp
next
  case (2 r)
  show ?case by (simp split: option.splits)
next
  case (3 r r' rs)
  then show ?case by (simp split: option.splits)
qed

lemma KEYWORDS_not_Nil: "KEYWORDS \<noteq> []"
  by (simp add: KEYWORDS_def)

lemma match_here_keyword_regex:
  "match_here (keyword_regex L) prev rest =
     map_option (\<lambda>kw. (advance prev (take (length kw) rest), drop (length kw) rest,
                       Some (take (length kw) rest)))
       (find (kw_here L prev rest) KEYWORDS)"
proof -
  let ?k = "\<lambda>prev' rest' (g' :: pystr option).
      rmatch (Bound (isword L)) prev' rest' (Some (take (length rest - length rest') rest))
        (\<lambda>prev' rest' g. Some (prev', rest', g))"
  have lit: "rmatch (Lit (ci_eq L) kw) prev rest None ?k =
      (if length kw \<le> length rest \<and> list_all2 (ci_eq L) kw (take (length kw) rest)
          \<and> at_boundary (isword L) (advance prev (take (length kw) rest)) (drop (length kw) rest)
       then Some (advance prev (take (length kw) rest), drop (length kw) rest,
                  Some (take (length kw) rest))
       else None)" for kw
    by simp
  show ?thesis
  proof (cases "at_boundary (isword L) prev rest")
    case False
    then have "find (kw_here L prev rest) KEYWORDS = None"
      by (simp add: find_None_iff kw_here_def)
    then show ?thesis
      using False by (simp add: match_here_def keyword_regex_def)
  next
    case True
    have "match_here (keyword_regex L) prev rest =
        first_some (\<lambda>kw. rmatch (Lit (ci_eq L) kw) prev rest None ?k) KEYWORDS"
      using True KEYWORDS_not_Nil
      by (simp add: match_here_def keyword_regex_def rmatch_alternation first_some_map)
    also have "\<dots> = first_some (\<lambda>kw. if kw_here L prev rest kw
        then Some (advance prev (take (length kw) rest), drop (length kw) rest,
                  Some (take (length kw) rest)) else None) KEYWORDS"
      using True by (simp only: lit kw_here_def simp_thms)
    finally show ?thesis by (simp only: first_some_find)
  qed
qed

lemma KEYWORDS_nonempty: "kw \<in> set KEYWORDS \<Longrightarrow> kw \<noteq> []"
  by (auto simp: KEYWORDS_def py_def)

lemma list_all2_hd_last:
  assumes "list_all2 P xs ys" "xs \<noteq> []"
  shows "P (hd xs) (hd ys)" "P (last xs) (last ys)"
proof -
  from assms obtain x xs' y ys' where "xs = x # xs'" "ys = y # ys'" "list_all2 P xs ys"
    by (cases xs; cases ys) auto
  then show "P (hd xs) (hd ys)" by simp
  have len: "length xs = length ys" and nth: "\<And>i. i < length xs \<Longrightarrow> P (xs ! i) (ys ! i)"
    using assms(1) by (simp_all add: list_all2_conv_all_nth)
  have "ys \<noteq> []" using len assms(2) by auto
  then show "P (last xs) (last ys)"
    using nth [of "length xs - 1"] assms(2) len by (simp add: last_conv_nth)
qed

lemma kw_here_whole_word:
  assumes edges: "keyword_edges_word L" and kw: "kw \<in> set KEYWORDS"
  shows "kw_here L (advance None pre) rest kw = whole_word_at L kw (pre @ rest) (length pre)"
proof (cases "length kw \<le> length rest \<and> list_all2 (ci_eq L) kw (take (length kw) rest)")
  case False
  then show ?thesis by (auto simp: kw_here_def whole_word_at_def)
next
  case True
  have ne: "kw \<noteq> []" using kw by (rule KEYWORDS_nonempty)
  let ?m = "take (length kw) rest"
  have m_ne: "?m \<noteq> []" and rest_ne: "rest \<noteq> []"
    using True ne by auto
  have "ci_eq L (hd kw) (hd ?m)" "ci_eq L (last kw) (last ?m)"
    using True ne list_all2_hd_last [of "ci_eq L" kw ?m] by simp_all
  then have w_first: "isword L (hd rest)" and w_last: "isword L (last ?m)"
    using edges kw m_ne ne by (auto simp: keyword_edges_word_def)
  have before: "at_boundary (isword L) (advance None pre) rest
      = (\<not> (0 < length pre \<and> isword L ((pre @ rest) ! (length pre - 1))))"
    using w_first rest_ne
    by (cases rest; cases "pre = []")
       (simp_all add: at_boundary_def advance_def nth_append last_conv_nth)
  have after: "at_boundary (isword L) (advance (advance None pre) ?m) (drop (length kw) rest)
      = (\<not> (length pre + length kw < length (pre @ rest)
            \<and> isword L ((pre @ rest) ! (length pre + length kw))))"
  proof (cases "drop (length kw) rest")
    case Nil
    then show ?thesis using w_last m_ne by (simp add: at_boundary_def advance_def)
  next
    case (Cons c cs)
    then have lt: "length kw < length rest"
      by (cases "length kw < length rest") simp_all
    have "hd (drop (length kw) rest) = rest ! length kw"
      using lt by (rule hd_drop_conv_nth)
    then have "rest ! length kw = c"
      using Cons by simp
    then show ?thesis
      using lt
      using w_last m_ne Cons by (simp add: at_boundary_def advance_def nth_append)
  qed
  show ?thesis
    using True before after by (simp add: kw_here_def whole_word_at_def)
qed

lemma search_from_spec:
  assumes edges: "keyword_edges_word L"
  shows "search_from (keyword_regex L) (length pre) (advance None pre) rest =
     (case find (\<lambda>i. \<exists>kw \<in> set KEYWORDS. whole_word_at L kw (pre @ rest) i)
             [length pre ..< Suc (length pre + length rest)] of
        None \<Rightarrow> None
      | Some i \<Rightarrow>
          map_option (\<lambda>kw. \<lparr>m_start = i, m_end = i + length kw,
                            m_group1 = Some (take (length kw) (drop i (pre @ rest)))\<rparr>)
            (find (\<lambda>kw. whole_word_at L kw (pre @ rest) i) KEYWORDS))"
proof (induction rest arbitrary: pre)
  case Nil
  have no_kw: "\<not> whole_word_at L kw (pre @ []) (length pre)" if "kw \<in> set KEYWORDS" for kw
    using KEYWORDS_nonempty [OF that] by (simp add: whole_word_at_def)
  have "find (kw_here L (advance None pre) []) KEYWORDS
      = find (\<lambda>kw. whole_word_at L kw (pre @ []) (length pre)) KEYWORDS"
    by (rule find_cong) (simp_all add: kw_here_whole_word [OF edges])
  also have "\<dots> = None"
    using no_kw by (simp add: find_None_iff)
  finally have f: "find (kw_here L (advance None pre) []) KEYWORDS = None" .
  have "\<not> (\<exists>kw \<in> set KEYWORDS. whole_word_at L kw (pre @ []) (length pre))"
    using no_kw by blast
  then show ?case
    using f by (subst search_from.simps) (simp add: match_here_keyword_regex)
next
  case (Cons c cs)
  let ?text = "pre @ c # cs"
  have f: "find (kw_here L (advance None pre) (c # cs)) KEYWORDS
      = find (\<lambda>kw. whole_word_at L kw ?text (length pre)) KEYWORDS"
    by (rule find_cong) (simp_all add: kw_here_whole_word [OF edges])
  have upt: "[length pre ..< Suc (length pre + length (c # cs))]
      = length pre # [length (pre @ [c]) ..< Suc (length (pre @ [c]) + length cs)]"
    by (simp add: upt_conv_Cons del: upt_Suc)
  show ?case
  proof (cases "find (\<lambda>kw. whole_word_at L kw ?text (length pre)) KEYWORDS")
    case None
    then have no: "\<not> (\<exists>kw \<in> set KEYWORDS. whole_word_at L kw ?text (length pre))"
      by (simp add: find_None_iff)
    have "search_from (keyword_regex L) (length pre) (advance None pre) (c # cs)
        = search_from (keyword_regex L) (length (pre @ [c])) (advance None (pre @ [c])) cs"
      using None f
      by (subst search_from.simps) (simp add: match_here_keyword_regex advance_def)
    also have "\<dots> =
       (case find (\<lambda>i. \<exists>kw \<in> set KEYWORDS. whole_word_at L kw ((pre @ [c]) @ cs) i)
             [length (pre @ [c]) ..< Suc (length (pre @ [c]) + length cs)] of
        None \<Rightarrow> None
      | Some i \<Rightarrow>
          map_option (\<lambda>kw. \<lparr>m_start = i, m_end = i + length kw,
                            m_group1 = Some (take (length kw) (drop i ((pre @ [c]) @ cs)))\<rparr>)
            (find (\<lambda>kw. whole_word_at L kw ((pre @ [c]) @ cs) i) KEYWORDS))"
      by (rule Cons.IH)
    finally show ?thesis
      using no by (simp only: upt find.simps if_False append_assoc append_Cons append_Nil)
  next
    case (Some kw)
    then have yes: "\<exists>kw \<in> set KEYWORDS. whole_word_at L kw ?text (length pre)"
      and len: "length kw \<le> length (c # cs)"
      by (auto simp: find_Some_iff whole_word_at_def)
    have "search_from (keyword_regex L) (length pre) (advance None pre) (c # cs)
        = Some \<lparr>m_start = length pre, m_end = length pre + length kw,
                m_group1 = Some (take (length kw) (c # cs))\<rparr>"
      using Some f len
      by (subst search_from.simps) (simp add: match_here_keyword_regex)
    then show ?thesis
      using yes Some by (simp only: upt find.simps if_True) simp
  qed
qed

text \<open>
  C7. Whenever the case-insensitive variants of the first and last letters of the
  keywords are word characters (as they are in Python), \<open>keyword_regex.search(text)\<close>
  is the specification's \<open>match\<close>: it finds the earliest position at which a keyword
  occurs as a whole word, compared without regard to case, there the first such keyword
  in the order of \<open>KEYWORDS\<close>, and it finds nothing exactly when no keyword occurs as a
  whole word. The match starts at that position, has the keyword's length, and
  \<open>group(1)\<close> is the occurrence as the text writes it.
\<close>

theorem matcher_semantics:
  assumes "keyword_edges_word L"
  shows "re_search (keyword_regex L) text =
     map_option (\<lambda>(i, kw). \<lparr>m_start = i, m_end = i + length kw,
                            m_group1 = Some (take (length kw) (drop i text))\<rparr>)
       (spec_match L text)"
  using search_from_spec [OF assms, of "[]" "text"]
  by (simp add: re_search_def spec_match_def advance_def option.map_comp comp_def
      split: option.splits)

lemma ascii_edges: "keyword_edges_word ascii_lib"
  by (simp add: keyword_edges_word_def KEYWORDS_def ascii_lib_def ascii_lower_def py_def)

text \<open>
  The examples of the specification: \<open>wallet\<close> in \<open>my wallet is gone\<close>, not in
  \<open>walletx\<close>, and in \<open>WALLET\<close>.
\<close>

theorem matcher_semantics_witness:
  "keyword_edges_word ascii_lib
   \<and> spec_match ascii_lib (py ''my wallet is gone'') = Some (3, py ''wallet'')
   \<and> re_search (keyword_regex ascii_lib) (py ''my wallet is gone'')
       = Some \<lparr>m_start = 3, m_end = 9, m_group1 = Some (py ''wallet'')\<rparr>
   \<and> re_search (keyword_regex ascii_lib) (py ''walletx'') = None
   \<and> re_search (keyword_regex ascii_lib) (py ''WALLET'')
       = Some \<lparr>m_start = 0, m_end = 6, m_group1 = Some (py ''WALLET'')\<rparr>"
proof -
  have sm: "spec_match ascii_lib (py ''my wallet is gone'') = Some (3, py ''wallet'')"
    by (simp add: spec_match_def whole_word_at_def KEYWORDS_def ascii_lib_def ascii_lower_def
        py_def upt_rec)
  have "re_search (keyword_regex ascii_lib) (py ''my wallet is gone'')
       = Some \<lparr>m_start = 3, m_end = 3 + length (py ''wallet''),
           m_group1 = Some (take (length (py ''wallet'')) (drop 3 (py ''my wallet is gone'')))\<rparr>"
    using matcher_semantics [OF ascii_edges, of "py ''my wallet is gone''"]
    by (simp only: sm option.map prod.case)
  then have e1: "re_search (keyword_regex ascii_lib) (py ''my wallet is gone'')
       = Some \<lparr>m_start = 3, m_end = 9, m_group1 = Some (py ''wallet'')\<rparr>"
    by (simp add: py_def)
  have e2: "re_search (keyword_regex ascii_lib) (py ''walletx'') = None"
    by (simp add: eval_regex)
  have e3: "re_search (keyword_regex ascii_lib) (py ''WALLET'')
       = Some \<lparr>m_start = 0, m_end = 6, m_group1 = Some (py ''WALLET'')\<rparr>"
    by (simp add: eval_regex)
  show ?thesis
    using ascii_edges sm e1 e2 e3 by (intro conjI)
qed

section \<open>The sanitizer\<close>

lemma first_some_rev_upt:
  "(\<And>n. 1 \<le> n \<Longrightarrow> n < m \<Longrightarrow> f n = None) \<Longrightarrow>
   first_some f (rev [1 ..< Suc m]) = (if 1 \<le> m then f m else None)"
proof (induction m)
  case 0
  show ?case by simp
next
  case (Suc m)
  have "first_some f (rev [1 ..< Suc m]) = (if 1 \<le> m then f m else None)"
    using Suc.prems by (intro Suc.IH) simp_all
  also have "\<dots> = None"
    using Suc.prems [of m] by simp
  finally have rest: "first_some f (rev [1 ..< Suc m]) = None" .
  have "[1 ..< Suc (Suc m)] = [1 ..< Suc m] @ [Suc m]"
    by (rule upt_Suc_append) simp
  then have "first_some f (rev [1 ..< Suc (Suc m)]) = first_some f (Suc m # rev [1 ..< Suc m])"
    by (simp only: rev_append rev.simps append.simps)
  also have "\<dots> = f (Suc m)"
    using rest by (cases "f (Suc m)") (simp_all del: upt_Suc)
  finally show ?case by simp
qed

lemma first_some_rev_upt_Some:
  assumes "1 \<le> m" "f m = Some y"
  shows "first_some f (rev [1 ..< Suc m]) = Some y"
proof -
  have "[1 ..< Suc m] = [1 ..< m] @ [m]"
    using assms(1) by (intro upt_Suc_append) simp
  then have "rev [1 ..< Suc m] = m # rev [1 ..< m]"
    by (simp only: rev_append rev.simps append.simps)
  then show ?thesis using assms(2) by (simp del: upt_Suc)
qed

lemma nth_takeWhile_holds:
  assumes "n < length (takeWhile P xs)"
  shows "P (xs ! n)"
proof -
  have "takeWhile P xs ! n \<in> set (takeWhile P xs)"
    using assms by simp
  then have "P (takeWhile P xs ! n)"
    by (auto dest: set_takeWhileD)
  then show ?thesis
    using assms by (simp add: takeWhile_nth)
qed

lemma match_here_tag:
  "match_here tag_regex prev rest =
     (case rest of
        [] \<Rightarrow> None
      | c # r \<Rightarrow>
          if c = 60 \<and> tagcond r
          then Some (Some 62, drop (Suc (length (takeWhile (\<lambda>c. c \<noteq> 62) r))) r, None)
          else None)"
proof (cases rest)
  case Nil
  then show ?thesis by (simp add: match_here_def tag_regex_def py_def)
next
  case (Cons c r)
  let ?P = "\<lambda>c :: nat. c \<noteq> 62"
  let ?m = "length (takeWhile ?P r)"
  let ?f = "\<lambda>n. rmatch (Lit (=) (py ''>'')) (advance (advance prev [c]) (take n r)) (drop n r)
      None (\<lambda>prev' rest' g. Some (prev', rest', g))"
  show ?thesis
  proof (cases "c = 60")
    case False
    then show ?thesis using Cons by (simp add: match_here_def tag_regex_def py_def)
  next
    case True
    have fn: "?f n = (if n < length r \<and> r ! n = 62 then Some (Some 62, drop (Suc n) r, None) else None)" for n
    proof (cases "n < length r")
      case True
      then have "drop n r = r ! n # drop (Suc n) r"
        by (simp add: Cons_nth_drop_Suc)
      then show ?thesis using True by (simp add: py_def advance_def)
    next
      case False
      then show ?thesis by (simp add: py_def)
    qed
    have below: "?f n = None" if "1 \<le> n" "n < ?m" for n
      using nth_takeWhile_holds [OF that(2)] unfolding fn by simp
    have top: "?f ?m = (if ?m < length r then Some (Some 62, drop (Suc ?m) r, None) else None)"
      using nth_length_takeWhile [of ?P r] unfolding fn by auto
    have "match_here tag_regex prev rest = first_some ?f (rev [1 ..< Suc ?m])"
      using Cons True by (simp add: match_here_def tag_regex_def py_def del: upt_Suc cong: if_cong)
    also have "\<dots> = (if 1 \<le> ?m then ?f ?m else None)"
      using below by (rule first_some_rev_upt)
    also have "\<dots> = (if 1 \<le> ?m \<and> ?m < length r
        then Some (Some 62, drop (Suc ?m) r, None) else None)"
      by (simp only: top) simp
    finally have "match_here tag_regex prev rest = (if 1 \<le> ?m \<and> ?m < length r
        then Some (Some 62, drop (Suc ?m) r, None) else None)" .
    then show ?thesis
      by (simp only: Cons True tagcond_def list.case simp_thms)
  qed
qed

lemma match_here_space:
  "match_here (space_regex L) prev rest =
     (case rest of
        [] \<Rightarrow> None
      | c # r \<Rightarrow>
          if isspace L c
          then Some (advance prev (takeWhile (isspace L) rest), dropWhile (isspace L) r, None)
          else None)"
proof (cases rest)
  case Nil
  then show ?thesis by (simp add: match_here_def space_regex_def)
next
  case (Cons c r)
  let ?m = "length (takeWhile (isspace L) rest)"
  let ?f = "\<lambda>n. Some (advance prev (take n rest), drop n rest, None :: pystr option)"
  have mh: "match_here (space_regex L) prev rest = first_some ?f (rev [1 ..< Suc ?m])"
    by (simp add: match_here_def space_regex_def del: upt_Suc)
  show ?thesis
  proof (cases "isspace L c")
    case False
    then show ?thesis using Cons mh by simp
  next
    case True
    then have m: "1 \<le> ?m" using Cons by simp
    have "first_some ?f (rev [1 ..< Suc ?m]) = ?f ?m"
      using m by (rule first_some_rev_upt_Some) simp
    moreover have "take ?m rest = takeWhile (isspace L) rest"
      by (simp add: takeWhile_eq_take [symmetric])
    moreover have "drop ?m rest = dropWhile (isspace L) r"
      using True Cons by (simp add: dropWhile_eq_drop [symmetric])
    ultimately show ?thesis
      using mh True Cons by simp
  qed
qed

lemma sub_from_tag: "sub_from tag_regex [] prev rest = strip_tags rest"
proof (induction rest arbitrary: prev rule: strip_tags.induct)
  case 1
  show ?case by (subst sub_from.simps) (simp add: match_here_tag)
next
  case (2 c r)
  show ?case
  proof (cases "c = 60 \<and> tagcond r")
    case True
    then show ?thesis
      using "2.IH"(1) [of "Some 62"]
      by (subst sub_from.simps) (simp add: match_here_tag)
  next
    case False
    then show ?thesis
      using "2.IH"(2) [of "Some c"]
      by (subst sub_from.simps) (auto simp: match_here_tag)
  qed
qed

lemma sub_from_space: "sub_from (space_regex L) (py '' '') prev rest = collapse L rest"
proof (induction L rest arbitrary: prev rule: collapse.induct)
  case (1 L)
  show ?case by (subst sub_from.simps) (simp add: match_here_space)
next
  case (2 L c r)
  show ?case
  proof (cases "isspace L c")
    case True
    have "length (dropWhile (isspace L) r) < length (c # r)"
      by (simp add: length_dropWhile_le less_Suc_eq_le)
    then show ?thesis
      using True "2.IH"(1) [OF True, of "advance prev (takeWhile (isspace L) (c # r))"]
      by (subst sub_from.simps) (simp add: match_here_space py_def)
  next
    case False
    then show ?thesis
      using "2.IH"(2) [of "Some c"]
      by (subst sub_from.simps) (simp add: match_here_space)
  qed
qed

lemma tagcond_iff: "tagcond r = (r \<noteq> [] \<and> hd r \<noteq> 62 \<and> 62 \<in> set r)"
proof (cases r)
  case Nil
  then show ?thesis by (simp add: tagcond_def)
next
  case (Cons c cs)
  have "(length (takeWhile (\<lambda>c. c \<noteq> 62) r) < length r) = (62 \<in> set r)"
  proof
    assume "length (takeWhile (\<lambda>c. c \<noteq> 62) r) < length r"
    then have "r ! length (takeWhile (\<lambda>c. c \<noteq> 62) r) \<in> set r"
      and "r ! length (takeWhile (\<lambda>c. c \<noteq> 62) r) = 62"
      using nth_length_takeWhile [of "\<lambda>c. c \<noteq> 62" r] nth_mem by blast+
    then show "62 \<in> set r" by simp
  next
    assume "62 \<in> set r"
    then have "takeWhile (\<lambda>c. c \<noteq> 62) r \<noteq> r" by (auto simp: takeWhile_eq_all_conv)
    moreover have "length (takeWhile (\<lambda>c. c \<noteq> 62) r) \<le> length r"
      by (rule length_takeWhile_le)
    ultimately show "length (takeWhile (\<lambda>c. c \<noteq> 62) r) < length r"
      using takeWhile_eq_take [of "\<lambda>c. c \<noteq> 62" r] by (cases "length (takeWhile (\<lambda>c. c \<noteq> 62) r) = length r") auto
  qed
  then show ?thesis using Cons by (auto simp: tagcond_def)
qed

lemma set_strip_tags: "set (strip_tags s) \<subseteq> set s"
proof (induction s rule: strip_tags.induct)
  case 1
  show ?case by simp
next
  case (2 c r)
  show ?case
  proof (cases "c = 60 \<and> tagcond r")
    case True
    then have "set (strip_tags (c # r))
        \<subseteq> set (drop (Suc (length (takeWhile (\<lambda>c. c \<noteq> 62) r))) r)"
      using "2.IH"(1) by simp
    also have "\<dots> \<subseteq> set r" by (rule set_drop_subset)
    finally show ?thesis by auto
  next
    case False
    then show ?thesis using "2.IH"(2) by auto
  qed
qed

lemma hd_strip_tags_62: "strip_tags (62 # r) = 62 # strip_tags r"
  by simp

lemma no_tag_strip_tags: "no_tag (strip_tags s)"
proof (induction s rule: strip_tags.induct)
  case 1
  show ?case by simp
next
  case (2 c r)
  show ?case
  proof (cases "c = 60 \<and> tagcond r")
    case True
    then show ?thesis using "2.IH"(1) by simp
  next
    case False
    have nt: "no_tag (strip_tags r)" using False "2.IH"(2) by simp
    have "\<not> tagcond (strip_tags r)" if c: "c = 60"
    proof
      assume t: "tagcond (strip_tags r)"
      then have in_r: "62 \<in> set r" "r \<noteq> []"
        using set_strip_tags [of r] by (auto simp: tagcond_iff)
      have "\<not> tagcond r" using False c by simp
      then have "hd r = 62" using in_r by (simp add: tagcond_iff)
      then obtain r' where "r = 62 # r'" using in_r(2) by (cases r) auto
      then have "hd (strip_tags r) = 62" by simp
      then show False using t by (simp add: tagcond_iff)
    qed
    then show ?thesis using False nt by auto
  qed
qed

lemma strip_tags_no_tag: "no_tag s \<Longrightarrow> strip_tags s = s"
  by (induction s) auto

lemma no_tag_drop: "no_tag s \<Longrightarrow> no_tag (drop n s)"
proof (induction s arbitrary: n)
  case Nil
  show ?case by simp
next
  case (Cons c r)
  then show ?case by (cases n) simp_all
qed

lemma tagcond_take: "tagcond (take n r) \<Longrightarrow> tagcond r"
  by (cases n; cases r) (auto simp: tagcond_iff dest: in_set_takeD)

lemma no_tag_take: "no_tag s \<Longrightarrow> no_tag (take n s)"
proof (induction s arbitrary: n)
  case Nil
  show ?case by simp
next
  case (Cons c r)
  then show ?case by (cases n) (auto dest: tagcond_take)
qed

lemma set_collapse: "x \<in> set (collapse L s) \<Longrightarrow> x = 32 \<or> (x \<in> set s \<and> \<not> isspace L x)"
proof (induction L s rule: collapse.induct)
  case (1 L)
  then show ?case by simp
next
  case (2 L c r)
  show ?case
  proof (cases "isspace L c")
    case True
    then have "x = 32 \<or> x \<in> set (collapse L (dropWhile (isspace L) r))"
      using "2.prems" by simp
    then show ?thesis
      using "2.IH"(1) [OF True] by (auto dest: set_dropWhileD)
  next
    case False
    then show ?thesis using "2.prems" "2.IH"(2) by auto
  qed
qed

lemma no_tag_collapse: "no_tag s \<Longrightarrow> no_tag (collapse L s)"
proof (induction L s rule: collapse.induct)
  case (1 L)
  show ?case by simp
next
  case (2 L c r)
  have r: "no_tag r" using "2.prems" by simp
  show ?case
  proof (cases "isspace L c")
    case True
    have "no_tag (dropWhile (isspace L) r)"
      using no_tag_drop [OF r, of "length (takeWhile (isspace L) r)"]
      by (simp add: dropWhile_eq_drop)
    then show ?thesis using True "2.IH"(1) by simp
  next
    case False
    have "\<not> tagcond (collapse L r)" if c: "c = 60"
    proof
      assume t: "tagcond (collapse L r)"
      then have "62 \<in> set (collapse L r)" by (simp add: tagcond_iff)
      then have in_r: "62 \<in> set r" "\<not> isspace L 62"
        using set_collapse [of 62 L r] by auto
      have "\<not> tagcond r" using "2.prems" c by simp
      then have "hd r = 62" using in_r by (auto simp: tagcond_iff)
      then obtain r' where "r = 62 # r'" using in_r(1) by (cases r) auto
      then have "hd (collapse L r) = 62" using in_r(2) by simp
      then show False using t by (simp add: tagcond_iff)
    qed
    then show ?thesis using False r "2.IH"(2) by auto
  qed
qed

lemma strip_as_take_drop:
  "strip L s = take (length (dropWhile (isspace L) s)
                 - length (takeWhile (isspace L) (rev (dropWhile (isspace L) s))))
               (drop (length (takeWhile (isspace L) s)) s)"
proof -
  let ?u = "dropWhile (isspace L) s"
  have "dropWhile (isspace L) (rev ?u) = drop (length (takeWhile (isspace L) (rev ?u))) (rev ?u)"
    by (simp add: dropWhile_eq_drop)
  then have "rev (dropWhile (isspace L) (rev ?u))
      = take (length ?u - length (takeWhile (isspace L) (rev ?u))) ?u"
    by (simp add: rev_drop)
  then show ?thesis by (simp add: strip_def dropWhile_eq_drop)
qed

lemma no_tag_strip: "no_tag s \<Longrightarrow> no_tag (strip L s)"
  by (simp only: strip_as_take_drop no_tag_take no_tag_drop)

lemma ws_ok_collapse: "ws_ok L (collapse L s)"
proof (induction L s rule: collapse.induct)
  case (1 L)
  show ?case by simp
next
  case (2 L c r)
  show ?case
  proof (cases "isspace L c")
    case True
    have "collapse L (dropWhile (isspace L) r) = [] \<or>
        \<not> isspace L (hd (collapse L (dropWhile (isspace L) r)))"
    proof (cases "dropWhile (isspace L) r")
      case Nil
      then have "collapse L (dropWhile (isspace L) r) = []"
        by (simp only: collapse.simps)
      then show ?thesis by (rule disjI1)
    next
      case (Cons d ds)
      then have "\<not> isspace L d" using hd_dropWhile [of "isspace L" r] by simp
      then show ?thesis using Cons by simp
    qed
    then show ?thesis using True "2.IH"(1) by auto
  next
    case False
    then show ?thesis using "2.IH"(2) by simp
  qed
qed

lemma collapse_ws_ok: "ws_ok L s \<Longrightarrow> collapse L s = s"
proof (induction s)
  case Nil
  show ?case by simp
next
  case (Cons c r)
  show ?case
  proof (cases "isspace L c")
    case True
    then have "dropWhile (isspace L) r = r" using Cons.prems by (cases r) auto
    then show ?thesis using True Cons by simp
  next
    case False
    then show ?thesis using Cons by simp
  qed
qed

lemma ws_ok_drop: "ws_ok L s \<Longrightarrow> ws_ok L (drop n s)"
proof (induction s arbitrary: n)
  case Nil
  show ?case by simp
next
  case (Cons c r)
  then show ?case by (cases n) simp_all
qed

lemma ws_ok_take: "ws_ok L s \<Longrightarrow> ws_ok L (take n s)"
proof (induction s arbitrary: n)
  case Nil
  show ?case by simp
next
  case (Cons c r)
  show ?case
  proof (cases n)
    case 0
    then show ?thesis by simp
  next
    case (Suc m)
    have "take m r = [] \<or> hd (take m r) = hd r"
      by (cases m; cases r) simp_all
    then show ?thesis using Cons Suc by auto
  qed
qed

lemma ws_ok_strip: "ws_ok L s \<Longrightarrow> ws_ok L (strip L s)"
  by (simp only: strip_as_take_drop ws_ok_take ws_ok_drop)

lemma strip_fixed:
  assumes "t = [] \<or> (\<not> isspace L (hd t) \<and> \<not> isspace L (last t))"
  shows "strip L t = t"
proof (cases t)
  case Nil
  then show ?thesis by (simp add: strip_def)
next
  case (Cons c cs)
  then have h: "\<not> isspace L (hd t)" and l: "\<not> isspace L (last t)" and ne: "t \<noteq> []"
    using assms by auto
  have 1: "dropWhile (isspace L) t = t" using h Cons by simp
  have "hd (rev t) = last t" using ne by (simp add: hd_rev)
  then have 2: "dropWhile (isspace L) (rev t) = rev t"
    using l by (simp add: dropWhile_eq_self_iff)
  show ?thesis by (simp add: strip_def 1 2)
qed

lemma strip_edges:
  "strip L s = [] \<or> (\<not> isspace L (hd (strip L s)) \<and> \<not> isspace L (last (strip L s)))"
proof (cases "strip L s = []")
  case True
  then show ?thesis by simp
next
  case False
  let ?u = "dropWhile (isspace L) s"
  let ?v = "dropWhile (isspace L) (rev ?u)"
  have s: "strip L s = rev ?v" by (simp add: strip_def)
  have v_ne: "?v \<noteq> []" using False s by simp
  have u_ne: "?u \<noteq> []"
  proof
    assume e: "?u = []"
    have "?v = []" unfolding e by simp
    then show False using v_ne by simp
  qed
  have "\<not> isspace L (hd ?v)" using v_ne by (rule hd_dropWhile)
  then have last_ok: "\<not> isspace L (last (strip L s))"
    using v_ne by (simp add: s last_rev)
  have "\<not> isspace L (hd ?u)" using u_ne by (rule hd_dropWhile)
  moreover have "last ?v = last (rev ?u)"
    using v_ne by (metis dropWhile_eq_drop last_drop length_drop zero_less_diff length_greater_0_conv)
  ultimately have "\<not> isspace L (hd (strip L s))"
    using v_ne u_ne by (simp add: s hd_rev last_rev)
  then show ?thesis using last_ok by simp
qed

lemma strip_strip: "strip L (strip L s) = strip L s"
  using strip_edges by (rule strip_fixed)

lemma safe_eq:
  "safe L x = (if x = [] then []
               else html_escape (strip L (collapse L (strip_tags (unescape L x)))))"
  by (simp add: safe_def re_sub_def sub_from_tag sub_from_space)

text \<open>
  C8. Whenever \<open>html.unescape\<close> undoes \<open>html.escape\<close> (as it does in Python: every
  ampersand that \<open>html.escape\<close> writes starts one of its five entities),
  \<open>safe (safe x) = safe x\<close> for every string \<open>x\<close>: the first pass leaves a text without
  tags, with single spaces and without whitespace at its ends, and on the escaped form
  of such a text the second pass decodes, changes nothing, and escapes again.
\<close>

theorem sanitizer_idempotent:
  assumes "\<forall>t. unescape L (html_escape t) = t"
  shows "safe L (safe L x) = safe L x"
proof (cases "x = []")
  case True
  then show ?thesis by (simp add: safe_eq)
next
  case False
  let ?t = "strip L (collapse L (strip_tags (unescape L x)))"
  have sx: "safe L x = html_escape ?t"
    using False by (simp add: safe_eq)
  have "no_tag ?t"
    by (intro no_tag_strip no_tag_collapse no_tag_strip_tags)
  then have 1: "strip_tags ?t = ?t"
    by (rule strip_tags_no_tag)
  have "ws_ok L ?t"
    by (intro ws_ok_strip ws_ok_collapse)
  then have 2: "collapse L ?t = ?t"
    by (rule collapse_ws_ok)
  have 3: "strip L ?t = ?t"
    by (rule strip_strip)
  have undo: "unescape L (html_escape ?t) = ?t"
    using assms by blast
  show ?thesis
  proof (cases "html_escape ?t = []")
    case True
    then show ?thesis by (simp add: sx safe_eq)
  next
    case False
    then have "safe L (html_escape ?t)
        = html_escape (strip L (collapse L (strip_tags (unescape L (html_escape ?t)))))"
      by (simp add: safe_eq)
    also have "\<dots> = html_escape ?t"
      by (simp only: undo 1 2 3)
    finally show ?thesis by (simp only: sx)
  qed
qed

text \<open>The \<open>unescape\<close> of the examples undoes \<open>html.escape\<close>.\<close>

lemma str_replace_append:
  "str_replace old new (a @ b) = str_replace old new a @ str_replace old new b"
  by (simp add: str_replace_def)

lemma html_escape_append: "html_escape (a @ b) = html_escape a @ html_escape b"
  by (simp add: html_escape_def str_replace_append)

lemma html_escape_single:
  "html_escape [c] =
     (if c = 38 then py ''&amp;'' else if c = 60 then py ''&lt;''
      else if c = 62 then py ''&gt;'' else if c = 34 then py ''&quot;''
      else if c = 39 then py ''&#x27;'' else [c])"
  by (simp add: html_escape_def str_replace_def py_def)

lemma unescape_basic_single:
  "unescape_basic (html_escape [c] @ rest) = c # unescape_basic rest"
  by (simp add: html_escape_single py_def)

lemma unescape_basic_escape: "unescape_basic (html_escape t) = t"
proof (induction t)
  case Nil
  show ?case by (simp add: html_escape_def str_replace_def)
next
  case (Cons c t)
  have "html_escape (c # t) = html_escape [c] @ html_escape t"
    using html_escape_append [of "[c]" t] by simp
  then show ?case
    using Cons by (simp only: unescape_basic_single)
qed

theorem sanitizer_idempotent_witness:
  "(\<forall>t. unescape ascii_lib (html_escape t) = t)
   \<and> safe ascii_lib (py ''  <b>A &amp;   B</b> &lt;x&gt; <>  c '') = py ''A &amp; B &lt;&gt; c''
   \<and> safe ascii_lib (safe ascii_lib (py ''  <b>A &amp;   B</b> &lt;x&gt; <>  c ''))
       = py ''A &amp; B &lt;&gt; c''"
proof -
  have rt: "\<forall>t. unescape ascii_lib (html_escape t) = t"
    by (simp add: ascii_lib_def unescape_basic_escape)
  have e: "safe ascii_lib (py ''  <b>A &amp;   B</b> &lt;x&gt; <>  c '') = py ''A &amp; B &lt;&gt; c''"
    by (simp add: eval_safe match_here_def ascii_lib_def advance_def py_def)
  have "safe ascii_lib (safe ascii_lib (py ''  <b>A &amp;   B</b> &lt;x&gt; <>  c ''))
       = safe ascii_lib (py ''  <b>A &amp;   B</b> &lt;x&gt; <>  c '')"
    using rt by (rule sanitizer_idempotent)
  then show ?thesis
    using rt e by (simp only: simp_thms)
qed

end
